theory Spec2Isabelle
  imports Main "HOL-Library.AList"
begin

section \<open>The wildcard matcher\<close>

text \<open>
  \<^verbatim>\<open>eventMatchPattern(eventName, pattern []rune) bool\<close> of goemitter.go. Event names and
  patterns are sequences of characters; the \<^verbatim>\<open>for\<close> loop is the last recursive call, the
  two calls of the \<^verbatim>\<open>'*'\<close> case are the source's own recursion, and the nested
  \<^verbatim>\<open>if\<close>s keep the short-circuit evaluation of \<^verbatim>\<open>||\<close> and \<^verbatim>\<open>&&\<close>.
\<close>

function eventMatchPattern :: "string \<Rightarrow> string \<Rightarrow> bool" where
  "eventMatchPattern eventName pattern =
     (if length pattern > 0 then
        (if hd pattern = CHR ''*'' then
           (if eventMatchPattern eventName (tl pattern) then True
            else if length eventName > 0 then eventMatchPattern (tl eventName) pattern
            else False)
         else if length eventName = 0 \<or> hd eventName \<noteq> hd pattern then False
         else eventMatchPattern (tl eventName) (tl pattern))
      else length eventName = 0 \<and> length pattern = 0)"
  by pat_completeness auto
termination
  by (relation "measure (\<lambda>(eventName, pattern). length eventName + length pattern)")
    (auto simp: neq_Nil_conv)

declare eventMatchPattern.simps [simp del]

text \<open>
  The matcher as section 4.2 of the specification words it: a wildcard either consumes
  nothing, or the event name is non-empty and the same step is retried one character
  later; a literal must equal the next character; both strings end together.
\<close>

fun spec_match :: "string \<Rightarrow> string \<Rightarrow> bool" where
  "spec_match [] [] = True"
| "spec_match (c # name) [] = False"
| "spec_match name (p # pat) =
     (if p = CHR ''*''
      then spec_match name pat \<or>
        (case name of [] \<Rightarrow> False | c # name' \<Rightarrow> spec_match name' (p # pat))
      else (case name of [] \<Rightarrow> False | c # name' \<Rightarrow> c = p \<and> spec_match name' pat))"

text \<open>
  What a pattern denotes: every \<^verbatim>\<open>*\<close> stands for an arbitrary, possibly empty, string
  \<open>w\<close> (any characters, a dot included) and every other character for itself.
\<close>

inductive glob :: "string \<Rightarrow> string \<Rightarrow> bool" where
  glob_end: "glob [] []"
| glob_lit: "p \<noteq> CHR ''*'' \<Longrightarrow> glob pat name \<Longrightarrow> glob (p # pat) (p # name)"
| glob_star: "glob pat name \<Longrightarrow> glob (CHR ''*'' # pat) (w @ name)"

section \<open>Callbacks, listeners and the emitter\<close>

text \<open>
  A callback \<^verbatim>\<open>func(...interface{})\<close> is opaque to the emitter. The emitter compares
  callbacks by \<^verbatim>\<open>reflect.ValueOf(f).Pointer()\<close>, the code pointer \<open>fptr\<close> (0 for a nil
  function value); two closures of one function literal share it and differ in \<open>closure\<close>.
  Of what a call does, the model keeps whether it panics; a callback that returns is taken
  not to call back into the emitter.
\<close>

record func =
  fptr :: nat
  closure :: nat
  aborts :: bool

definition panics :: "func \<Rightarrow> bool" where
  "panics f = (fptr f = 0 \<or> aborts f)"

text \<open>Values of type \<^verbatim>\<open>interface{}\<close>, as far as the emitter passes or receives them.\<close>

datatype val = VString string | VInt int | VFunc func | VSlice "val list"

record Listener =
  callback :: func
  once :: bool

text \<open>
  What a run of the emitter does to its surroundings, in order: operations on the mutex,
  entries into \<^verbatim>\<open>EmitSync\<close>/\<^verbatim>\<open>EmitAsync\<close> with the event name and the arguments received,
  calls of callbacks on the caller's goroutine, and goroutines started.
\<close>

datatype effect =
  Lock | Unlock | Emit string "val list" | Call func "val list" | Go func "val list"

text \<open>
  The \<^verbatim>\<open>Emitter\<close> struct: the map \<open>listeners\<close>, whose keys are the strings that \<^verbatim>\<open>On\<close> and
  \<^verbatim>\<open>Once\<close> insert (they are the only insertions), as an association list with distinct
  keys whose order stands for the order in which \<^verbatim>\<open>range\<close> visits the map; and, for the
  mutex and the calls made, the history \<open>effects\<close>.
\<close>

record Emitter =
  listeners :: "(string \<times> Listener list) list"
  effects :: "effect list"

datatype outcome = Returned Emitter | Panicked Emitter

fun after :: "outcome \<Rightarrow> Emitter" where
  "after (Returned self) = self"
| "after (Panicked self) = self"

fun returns :: "outcome \<Rightarrow> bool" where
  "returns (Returned self) = True"
| "returns (Panicked self) = False"

definition log :: "effect list \<Rightarrow> Emitter \<Rightarrow> Emitter" where
  "log xs self = self\<lparr>effects := effects self @ xs\<rparr>"

text \<open>Reading a missing key of a Go map gives the zero value, the nil slice.\<close>

definition lookup :: "(string \<times> Listener list) list \<Rightarrow> string \<Rightarrow> Listener list" where
  "lookup reg event = (case map_of reg event of None \<Rightarrow> [] | Some lis \<Rightarrow> lis)"

definition Construct :: Emitter where
  "Construct = \<lparr>listeners = [], effects = []\<rparr>"

text \<open>
  \<^verbatim>\<open>Destruct\<close> assigns nil to its receiver variable \<^verbatim>\<open>self\<close>, a copy of the caller's
  pointer: the emitter the pointer referred to is what the caller still holds.
\<close>

definition Destruct :: "Emitter \<Rightarrow> Emitter" where
  "Destruct obj = (let self = Some obj; self = (None :: Emitter option) in obj)"

subsection \<open>Listeners\<close>

definition shouldAdd :: "string \<Rightarrow> string \<Rightarrow> bool" where
  "shouldAdd eventPattern event =
     (eventPattern = ''**'' \<or> eventPattern = event \<or>
      (CHR ''*'' \<in> set eventPattern \<and> eventMatchPattern event eventPattern))"

fun collect :: "string \<Rightarrow> (string \<times> Listener list) list \<Rightarrow> Listener list \<Rightarrow> Listener list" where
  "collect event [] acc = acc"
| "collect event ((eventPattern, lis) # rest) acc =
     collect event rest (if shouldAdd eventPattern event then acc @ lis else acc)"

definition Listeners :: "string \<Rightarrow> Emitter \<Rightarrow> Listener list \<times> Emitter" where
  "Listeners event self = (collect event (listeners self) [], log [Lock, Unlock] self)"

definition ListenersCount :: "string \<Rightarrow> Emitter \<Rightarrow> nat \<times> Emitter" where
  "ListenersCount event self =
     (case Listeners event self of (snap, s1) \<Rightarrow> (length snap, s1))"

subsection \<open>Removal of one listener\<close>

text \<open>The \<^verbatim>\<open>range\<close> loop of \<^verbatim>\<open>removeListenerInternal\<close>: the first index with the same code pointer.\<close>

fun index_of :: "func \<Rightarrow> Listener list \<Rightarrow> nat option" where
  "index_of cb [] = None"
| "index_of cb (v # vs) =
     (if fptr (callback v) = fptr cb then Some 0 else map_option Suc (index_of cb vs))"

text \<open>
  The part of \<^verbatim>\<open>removeListenerInternal\<close> between \<^verbatim>\<open>Lock\<close> and \<^verbatim>\<open>Unlock\<close>, with whether an entry
  was removed. It is all that \<^verbatim>\<open>removeListenerInternal(event, callback, true)\<close> does.
\<close>

definition removeLocked :: "string \<Rightarrow> func \<Rightarrow> Emitter \<Rightarrow> Emitter \<times> bool" where
  "removeLocked event cb self =
     (let s1 = log [Lock] self in
      case map_of (listeners s1) event of
        None \<Rightarrow> (log [Unlock] s1, False)
      | Some lis \<Rightarrow>
          (case index_of cb lis of
             Some k \<Rightarrow>
               (log [Unlock]
                  (s1\<lparr>listeners :=
                     AList.update event (take k lis @ drop (Suc k) lis) (listeners s1)\<rparr>),
                True)
           | None \<Rightarrow> (log [Unlock] s1, False)))"

subsection \<open>Dispatch\<close>

fun dispatchSync :: "string \<Rightarrow> val list \<Rightarrow> Listener list \<Rightarrow> Emitter \<Rightarrow> outcome" where
  "dispatchSync event args [] self = Returned self"
| "dispatchSync event args (v # vs) self =
     (let s1 = (if once v then fst (removeLocked event (callback v) self) else self);
          s2 = log [Call (callback v) args] s1
      in if panics (callback v) then Panicked s2 else dispatchSync event args vs s2)"

definition EmitSync :: "string \<Rightarrow> val list \<Rightarrow> Emitter \<Rightarrow> outcome" where
  "EmitSync event args self =
     (case Listeners event (log [Emit event args] self) of
        (snap, s1) \<Rightarrow> dispatchSync event args snap s1)"

fun dispatchAsync :: "string \<Rightarrow> val list \<Rightarrow> Listener list \<Rightarrow> Emitter \<Rightarrow> Emitter" where
  "dispatchAsync event args [] self = self"
| "dispatchAsync event args (v # vs) self =
     (let s1 = (if once v then fst (removeLocked event (callback v) self) else self);
          s2 = log [Go (callback v) args] s1
      in dispatchAsync event args vs s2)"

definition EmitAsync :: "string \<Rightarrow> val list \<Rightarrow> Emitter \<Rightarrow> outcome" where
  "EmitAsync event args self =
     (case Listeners event (log [Emit event args] self) of
        (snap, s1) \<Rightarrow> Returned (dispatchAsync event args snap s1))"

subsection \<open>The registry operations\<close>

definition removeListenerInternal :: "string \<Rightarrow> func \<Rightarrow> bool \<Rightarrow> Emitter \<Rightarrow> outcome" where
  "removeListenerInternal event cb suppress self =
     (case removeLocked event cb self of
        (s1, removed) \<Rightarrow>
          if removed \<and> \<not> suppress
          then EmitSync ''removeListener'' [VSlice [VString event, VFunc cb]] s1
          else Returned s1)"

definition RemoveListener :: "string \<Rightarrow> func \<Rightarrow> Emitter \<Rightarrow> outcome" where
  "RemoveListener event cb self = removeListenerInternal event cb False self"

definition On :: "string \<Rightarrow> func \<Rightarrow> Emitter \<Rightarrow> outcome" where
  "On event cb self =
     (let s1 = log [Lock] self;
          s2 = (if map_of (listeners s1) event = None
                then s1\<lparr>listeners := AList.update event [] (listeners s1)\<rparr> else s1);
          s3 = s2\<lparr>listeners :=
                 AList.update event
                   (lookup (listeners s2) event @ [\<lparr>callback = cb, once = False\<rparr>])
                   (listeners s2)\<rparr>;
          s4 = log [Unlock] s3
      in EmitSync ''newListener'' [VSlice [VString event, VFunc cb]] s4)"

definition Once :: "string \<Rightarrow> func \<Rightarrow> Emitter \<Rightarrow> outcome" where
  "Once event cb self =
     (let s1 = log [Lock] self;
          s2 = (if map_of (listeners s1) event = None
                then s1\<lparr>listeners := AList.update event [] (listeners s1)\<rparr> else s1);
          s3 = s2\<lparr>listeners :=
                 AList.update event
                   (lookup (listeners s2) event @ [\<lparr>callback = cb, once = True\<rparr>])
                   (listeners s2)\<rparr>;
          s4 = log [Unlock] s3
      in EmitSync ''newListener'' [VSlice [VString event, VFunc cb]] s4)"

definition AddListener :: "string \<Rightarrow> func \<Rightarrow> Emitter \<Rightarrow> outcome" where
  "AddListener event cb self = On event cb self"

text \<open>
  \<^verbatim>\<open>RemoveAllListeners(event interface{})\<close>: \<open>None\<close> is nil. A key that is no string is
  never in the map; a function or a slice cannot be hashed, and the map access panics
  (the deferred \<^verbatim>\<open>Unlock\<close> still runs).
\<close>

definition RemoveAllListeners :: "val option \<Rightarrow> Emitter \<Rightarrow> outcome" where
  "RemoveAllListeners event self =
     (let s1 = log [Lock] self in
      case event of
        None \<Rightarrow> Returned (log [Unlock] (s1\<lparr>listeners := []\<rparr>))
      | Some (VString name) \<Rightarrow>
          (if map_of (listeners s1) name = None then Returned (log [Unlock] s1)
           else Returned (log [Unlock] (s1\<lparr>listeners := AList.delete name (listeners s1)\<rparr>)))
      | Some (VInt i) \<Rightarrow> Returned (log [Unlock] s1)
      | Some (VFunc f) \<Rightarrow> Panicked (log [Unlock] s1)
      | Some (VSlice vs) \<Rightarrow> Panicked (log [Unlock] s1))"

section \<open>Reading a history\<close>

text \<open>The callbacks called, with their arguments, and the emissions, in order.\<close>

fun calls :: "effect list \<Rightarrow> (func \<times> val list) list" where
  "calls [] = []"
| "calls (Call f args # xs) = (f, args) # calls xs"
| "calls (x # xs) = calls xs"

fun emits :: "effect list \<Rightarrow> (string \<times> val list) list" where
  "emits [] = []"
| "emits (Emit event args # xs) = (event, args) # emits xs"
| "emits (x # xs) = emits xs"


text \<open>
  The listeners of a snapshot that a synchronous dispatch gets to: all of them up to and
  including the first whose callback panics.
\<close>

fun reached :: "Listener list \<Rightarrow> Listener list" where
  "reached [] = []"
| "reached (v # vs) = v # (if panics (callback v) then [] else reached vs)"

text \<open>The goroutines started by \<^verbatim>\<open>EmitAsync\<close>, with the callback and the arguments of each.\<close>

fun started :: "effect list \<Rightarrow> (func \<times> val list) list" where
  "started [] = []"
| "started (Go f args # xs) = (f, args) # started xs"
| "started (x # xs) = started xs"

text \<open>
  \<^verbatim>\<open>go v.callback(args...)\<close> is a bare \<^verbatim>\<open>go\<close> statement: the goroutine runs the callback with
  no deferred \<^verbatim>\<open>recover\<close> around it, in the emitter or anywhere in this package. A panic of
  the callback therefore reaches the top of its goroutine, and the Go runtime then ends the
  whole program; the runtime also ends the program at a \<^verbatim>\<open>go\<close> statement whose function
  value is nil. A history leads to this when a goroutine was started on such a callback.
\<close>

definition crashes :: "effect list \<Rightarrow> bool" where
  "crashes xs = list_ex (\<lambda>(f, args). panics f) (started xs)"

section \<open>Sequences of calls on one pattern\<close>

text \<open>
  A caller's sequence of \<^verbatim>\<open>On\<close> and \<^verbatim>\<open>RemoveListener\<close> calls on one pattern; a call that
  panics leaves the emitter as it was at the panic, and the caller goes on. A removal is
  successful when the locked scan finds an entry and removes it.
\<close>

datatype call = CallOn func | CallRemoveListener func

fun run :: "string \<Rightarrow> call list \<Rightarrow> Emitter \<Rightarrow> Emitter" where
  "run pattern [] self = self"
| "run pattern (CallOn f # cs) self = run pattern cs (after (On pattern f self))"
| "run pattern (CallRemoveListener f # cs) self =
     run pattern cs (after (RemoveListener pattern f self))"

fun adds :: "call list \<Rightarrow> nat" where
  "adds [] = 0"
| "adds (CallOn f # cs) = Suc (adds cs)"
| "adds (CallRemoveListener f # cs) = adds cs"

fun removals :: "string \<Rightarrow> call list \<Rightarrow> Emitter \<Rightarrow> nat" where
  "removals pattern [] self = 0"
| "removals pattern (CallOn f # cs) self = removals pattern cs (after (On pattern f self))"
| "removals pattern (CallRemoveListener f # cs) self =
     (if snd (removeLocked pattern f self) then 1 else 0) +
     removals pattern cs (after (RemoveListener pattern f self))"

text \<open>
  No key other than \<open>pattern\<close> covers the event name \<open>pattern\<close>, and the listeners under
  \<open>pattern\<close> are not one-time listeners.
\<close>

definition alone :: "string \<Rightarrow> Emitter \<Rightarrow> bool" where
  "alone pattern self =
     (distinct (map fst (listeners self)) \<and>
      (\<forall>k\<in>set (map fst (listeners self)). shouldAdd k pattern \<longrightarrow> k = pattern) \<and>
      (\<forall>v\<in>set (lookup (listeners self) pattern). \<not> once v))"

section \<open>Callbacks for the examples\<close>

definition fn1 :: func where
  "fn1 = \<lparr>fptr = 1, closure = 1, aborts = False\<rparr>"

definition fn2 :: func where
  "fn2 = \<lparr>fptr = 2, closure = 2, aborts = False\<rparr>"


section \<open>The matcher: equations, the specification's algorithm, and what a pattern denotes\<close>

lemma emp_Nil: "eventMatchPattern name [] = (name = [])"
  by (subst eventMatchPattern.simps) simp

lemma emp_star_Nil: "eventMatchPattern [] (CHR ''*'' # pat) = eventMatchPattern [] pat"
  by (subst eventMatchPattern.simps) simp

lemma emp_star_Cons:
  "eventMatchPattern (c # name) (CHR ''*'' # pat) =
     (eventMatchPattern (c # name) pat \<or> eventMatchPattern name (CHR ''*'' # pat))"
  by (subst eventMatchPattern.simps) simp

lemma emp_lit_Nil: "p \<noteq> CHR ''*'' \<Longrightarrow> eventMatchPattern [] (p # pat) = False"
  by (subst eventMatchPattern.simps) simp

lemma emp_lit_Cons:
  "p \<noteq> CHR ''*'' \<Longrightarrow>
     eventMatchPattern (c # name) (p # pat) = (c = p \<and> eventMatchPattern name pat)"
  by (subst eventMatchPattern.simps) simp

lemmas emp_simps = emp_Nil emp_star_Nil emp_star_Cons emp_lit_Nil emp_lit_Cons

lemma emp_spec: "eventMatchPattern name pat = spec_match name pat"
proof (induction name pat rule: spec_match.induct)
  case 1
  show ?case by (simp add: emp_Nil)
next
  case (2 c name)
  show ?case by (simp add: emp_Nil)
next
  case (3 name p pat)
  show ?case
  proof (cases "p = CHR ''*''")
    case True
    with 3 show ?thesis by (cases name) (simp_all add: emp_simps)
  next
    case False
    with 3 show ?thesis by (cases name) (simp_all add: emp_simps)
  qed
qed

lemma spec_star_append: "spec_match name pat \<Longrightarrow> spec_match (w @ name) (CHR ''*'' # pat)"
  by (induction w) auto

lemma glob_imp_spec: "glob pat name \<Longrightarrow> spec_match name pat"
proof (induction rule: glob.induct)
  case glob_end
  show ?case by simp
next
  case (glob_lit p pat name)
  then show ?case by simp
next
  case (glob_star pat name w)
  from glob_star.IH show ?case by (rule spec_star_append)
qed

lemma glob_star_cons:
  assumes "glob (CHR ''*'' # pat) name"
  shows "glob (CHR ''*'' # pat) (c # name)"
  using assms
proof (cases rule: glob.cases)
  case (glob_star name' w)
  from glob_star(2) [THEN glob.glob_star, of "c # w"] glob_star(1) show ?thesis by simp
qed simp

lemma spec_imp_glob: "spec_match name pat \<Longrightarrow> glob pat name"
proof (induction name pat rule: spec_match.induct)
  case 1
  show ?case by (rule glob_end)
next
  case (2 c name)
  then show ?case by simp
next
  case (3 name p pat)
  show ?case
  proof (cases "p = CHR ''*''")
    case True
    show ?thesis
    proof (cases "spec_match name pat")
      case yes: True
      with "3.IH"(1) True have "glob pat name" by simp
      from glob_star [OF this, of "[]"] True show ?thesis by simp
    next
      case no: False
      with "3.prems" True obtain c name' where n: "name = c # name'"
        and s: "spec_match name' (p # pat)"
        by (cases name) simp_all
      from "3.IH"(2) [OF True n] s have "glob (p # pat) name'" by simp
      with True n show ?thesis by (simp add: glob_star_cons)
    qed
  next
    case False
    with "3.prems" obtain name' where n: "name = p # name'" and s: "spec_match name' pat"
      by (cases name) simp_all
    from "3.IH"(3) [OF False n] s have "glob pat name'" by simp
    with False n show ?thesis by (simp add: glob_lit)
  qed
qed

lemma emp_glob: "eventMatchPattern name pat = glob pat name"
  using glob_imp_spec spec_imp_glob by (auto simp: emp_spec)

text \<open>
  Claim C3. The matcher of the source accepts an event name for a pattern exactly when the
  recursive algorithm of the specification does (a wildcard consumes nothing, or the
  non-empty event name loses one character and the step is retried; a literal equals
  the next character; both strings end together), and exactly when the event name is
  the pattern with each \<^verbatim>\<open>*\<close> replaced by some string of zero or more arbitrary
  characters. This holds for every pattern, with or without a wildcard.
\<close>

theorem eventMatchPattern_is_recursive_glob:
  "eventMatchPattern name pat = spec_match name pat \<and>
   eventMatchPattern name pat = glob pat name"
  by (simp add: emp_spec [symmetric] emp_glob [symmetric])

theorem eventMatchPattern_is_recursive_glob_witness:
  "glob ''user.*'' ''user.created'' \<and> \<not> glob ''user.*'' ''admin.created'' \<and>
   glob ''*.*'' ''a.b.c''"
  using eventMatchPattern_is_recursive_glob [of "''user.created''" "''user.*''"]
    eventMatchPattern_is_recursive_glob [of "''admin.created''" "''user.*''"]
    eventMatchPattern_is_recursive_glob [of "''a.b.c''" "''*.*''"]
  by (simp add: emp_simps)

section \<open>The registry and the dispatch loop\<close>

lemma listeners_log [simp]: "listeners (log xs self) = listeners self"
  by (simp add: log_def)

lemma effects_log [simp]: "effects (log xs self) = effects self @ xs"
  by (simp add: log_def)

lemma calls_append [simp]: "calls (xs @ ys) = calls xs @ calls ys"
  by (induction xs rule: calls.induct) simp_all

lemma emits_append [simp]: "emits (xs @ ys) = emits xs @ emits ys"
  by (induction xs rule: emits.induct) simp_all


lemma collect_eq:
  "collect event reg acc = acc @ concat (map snd (filter (\<lambda>kv. shouldAdd (fst kv) event) reg))"
  by (induction event reg acc rule: collect.induct) simp_all


lemma index_of_Some:
  "index_of cb lis = Some k \<Longrightarrow>
     k < length lis \<and> fptr (callback (lis ! k)) = fptr cb \<and>
     (\<forall>j<k. fptr (callback (lis ! j)) \<noteq> fptr cb)"
proof (induction lis arbitrary: k)
  case Nil
  then show ?case by simp
next
  case (Cons v vs)
  show ?case
  proof (cases "fptr (callback v) = fptr cb")
    case True
    with Cons.prems show ?thesis by simp
  next
    case False
    with Cons.prems obtain k' where k: "k = Suc k'" and i: "index_of cb vs = Some k'"
      by auto
    from Cons.IH [OF i] False k show ?thesis
      by (auto simp: less_Suc_eq_0_disj)
  qed
qed

lemma removeLocked_listeners:
  "listeners (fst (removeLocked event cb self)) =
     (case index_of cb (lookup (listeners self) event) of
        None \<Rightarrow> listeners self
      | Some k \<Rightarrow>
          AList.update event
            (take k (lookup (listeners self) event) @ drop (Suc k) (lookup (listeners self) event))
            (listeners self))"
  by (simp add: removeLocked_def lookup_def Let_def split: option.splits)

lemma removeLocked_effects [simp]:
  "effects (fst (removeLocked event cb self)) = effects self @ [Lock, Unlock]"
  by (simp add: removeLocked_def Let_def split: option.splits)

lemma removeLocked_found:
  "snd (removeLocked event cb self) = (index_of cb (lookup (listeners self) event) \<noteq> None)"
  by (simp add: removeLocked_def lookup_def Let_def split: option.splits)

lemma map_of_Some_key: "map_of al k = Some v \<Longrightarrow> k \<in> fst ` set al"
  by (metis domI dom_map_of_conv_image_fst)

lemma removeLocked_keys [simp]:
  "map fst (listeners (fst (removeLocked event cb self))) = map fst (listeners self)"
  by (auto simp: removeLocked_def lookup_def Let_def AList.update_keys
      dest: map_of_Some_key split: option.splits)

lemma removeLocked_other:
  "k \<noteq> event \<Longrightarrow>
     map_of (listeners (fst (removeLocked event cb self))) k = map_of (listeners self) k"
  by (simp add: removeLocked_def Let_def AList.update_conv' split: option.splits)

lemma removeLocked_absent:
  "index_of cb (lookup (listeners self) event) = None \<Longrightarrow>
     listeners (fst (removeLocked event cb self)) = listeners self"
  by (simp add: removeLocked_listeners)


lemma dispatchSync_keys [simp]:
  "map fst (listeners (after (dispatchSync event args snap self))) = map fst (listeners self)"
  by (induction snap arbitrary: self) (simp_all add: Let_def)

lemma dispatchSync_other:
  "k \<noteq> event \<Longrightarrow>
     map_of (listeners (after (dispatchSync event args snap self))) k = map_of (listeners self) k"
  by (induction snap arbitrary: self) (simp_all add: Let_def removeLocked_other)

lemma dispatchSync_unchanged:
  "\<forall>v\<in>set snap. once v \<longrightarrow> index_of (callback v) (lookup (listeners self) event) = None \<Longrightarrow>
     listeners (after (dispatchSync event args snap self)) = listeners self"
  by (induction snap arbitrary: self) (simp_all add: Let_def removeLocked_absent)

lemma dispatchSync_calls:
  "calls (effects (after (dispatchSync event args snap self))) =
     calls (effects self) @ map (\<lambda>v. (callback v, args)) (reached snap)"
  by (induction snap arbitrary: self) (simp_all add: Let_def)

lemma dispatchSync_emits [simp]:
  "emits (effects (after (dispatchSync event args snap self))) = emits (effects self)"
  by (induction snap arbitrary: self) (simp_all add: Let_def)




lemma Listeners_fst:
  "fst (Listeners event self) =
     concat (map snd (filter (\<lambda>kv. shouldAdd (fst kv) event) (listeners self)))"
  by (simp add: Listeners_def collect_eq)

lemma EmitSync_eq:
  "EmitSync event args self =
     dispatchSync event args (fst (Listeners event self))
       (log [Emit event args, Lock, Unlock] self)"
  by (simp add: EmitSync_def Listeners_def log_def)


lemma lookup_Cons [simp]:
  "lookup ((k, lis) # reg) event = (if k = event then lis else lookup reg event)"
  by (simp add: lookup_def)

lemma lookup_Nil [simp]: "lookup [] event = []"
  by (simp add: lookup_def)

lemma lookup_absent: "event \<notin> fst ` set reg \<Longrightarrow> lookup reg event = []"
  by (simp add: lookup_def map_of_eq_None_iff [THEN iffD2])

lemma lookup_update [simp]:
  "lookup (AList.update k lis reg) event = (if k = event then lis else lookup reg event)"
  by (simp add: lookup_def AList.update_conv')

lemma snapshot_only:
  "distinct (map fst reg) \<Longrightarrow>
   \<forall>kv\<in>set reg. fst kv \<noteq> p \<and> shouldAdd (fst kv) event \<longrightarrow> snd kv = [] \<Longrightarrow>
   concat (map snd (filter (\<lambda>kv. shouldAdd (fst kv) event) reg)) =
     (if shouldAdd p event then lookup reg p else [])"
proof (induction reg)
  case Nil
  show ?case by simp
next
  case (Cons kv reg)
  obtain k lis where kv: "kv = (k, lis)" by (cases kv)
  from Cons.prems have d: "distinct (map fst reg)" and k: "k \<notin> fst ` set reg"
    and rest: "\<forall>kv\<in>set reg. fst kv \<noteq> p \<and> shouldAdd (fst kv) event \<longrightarrow> snd kv = []"
    and here: "k \<noteq> p \<and> shouldAdd k event \<longrightarrow> lis = []"
    by (simp_all add: kv)
  note IH = Cons.IH [OF d rest]
  show ?case
  proof (cases "k = p")
    case True
    with k have "lookup reg p = []" by (simp add: lookup_absent)
    with IH True show ?thesis by (simp add: kv)
  next
    case False
    with IH here show ?thesis by (auto simp: kv)
  qed
qed

lemma shouldAdd_same [simp]: "shouldAdd event event"
  by (simp add: shouldAdd_def)

lemma alone_snapshot:
  assumes "alone pattern self"
  shows "fst (Listeners pattern self) = lookup (listeners self) pattern"
proof -
  from assms have d: "distinct (map fst (listeners self))"
    and o: "\<forall>kv\<in>set (listeners self).
        fst kv \<noteq> pattern \<and> shouldAdd (fst kv) pattern \<longrightarrow> snd kv = []"
    by (auto simp: alone_def)
  from snapshot_only [OF d o] show ?thesis by (simp add: Listeners_fst)
qed

lemma alone_cong:
  "map fst (listeners t) = map fst (listeners self) \<Longrightarrow>
   lookup (listeners t) pattern = lookup (listeners self) pattern \<Longrightarrow>
   alone pattern t = alone pattern self"
  by (simp add: alone_def)

lemma EmitSync_keys [simp]:
  "map fst (listeners (after (EmitSync event args self))) = map fst (listeners self)"
  by (simp add: EmitSync_eq)

lemma alone_EmitSync_lookup:
  assumes "alone pattern self"
  shows "lookup (listeners (after (EmitSync event args self))) pattern =
    lookup (listeners self) pattern"
proof (cases "event = pattern")
  case True
  from assms have "\<forall>v\<in>set (fst (Listeners pattern self)). \<not> once v"
    by (simp add: alone_snapshot alone_def)
  then have "listeners (after (EmitSync pattern args self)) = listeners self"
    by (simp add: EmitSync_eq dispatchSync_unchanged)
  with True show ?thesis by simp
next
  case False
  then have "map_of (listeners (after (EmitSync event args self))) pattern =
      map_of (listeners self) pattern"
    by (simp add: EmitSync_eq dispatchSync_other)
  then show ?thesis by (simp add: lookup_def)
qed

lemma alone_EmitSync:
  "alone pattern self \<Longrightarrow> alone pattern (after (EmitSync event args self))"
  using alone_cong [of "after (EmitSync event args self)" self pattern]
  by (simp add: alone_EmitSync_lookup)

lemma On_eq:
  "On event cb self =
     EmitSync ''newListener'' [VSlice [VString event, VFunc cb]]
       (log [Lock, Unlock]
          (self\<lparr>listeners :=
             AList.update event (lookup (listeners self) event @ [\<lparr>callback = cb, once = False\<rparr>])
               (listeners self)\<rparr>))"
  by (simp add: On_def Let_def log_def lookup_def AList.update_conv')



lemma alone_update:
  assumes "alone pattern self" and "\<forall>v\<in>set lis. \<not> once v"
  shows "alone pattern (log xs (self\<lparr>listeners := AList.update pattern lis (listeners self)\<rparr>))"
  using assms by (auto simp: alone_def AList.distinct_update AList.update_keys)

lemma alone_On:
  assumes "alone pattern self"
  shows "alone pattern (after (On pattern f self))"
    and "lookup (listeners (after (On pattern f self))) pattern =
      lookup (listeners self) pattern @ [\<lparr>callback = f, once = False\<rparr>]"
proof -
  let ?lis = "lookup (listeners self) pattern @ [\<lparr>callback = f, once = False\<rparr>]"
  let ?s = "log [Lock, Unlock] (self\<lparr>listeners := AList.update pattern ?lis (listeners self)\<rparr>)"
  from assms have "\<forall>v\<in>set ?lis. \<not> once v" by (simp add: alone_def)
  with assms have a: "alone pattern ?s" by (rule alone_update)
  then show "alone pattern (after (On pattern f self))"
    by (simp only: On_eq alone_EmitSync)
  from a show "lookup (listeners (after (On pattern f self))) pattern = ?lis"
    by (simp add: On_eq alone_EmitSync_lookup)
qed

lemma removeLocked_alone:
  assumes "alone pattern self"
  shows "alone pattern (fst (removeLocked pattern f self))"
    and "length (lookup (listeners (fst (removeLocked pattern f self))) pattern) =
      length (lookup (listeners self) pattern) - (if snd (removeLocked pattern f self) then 1 else 0)"
    and "snd (removeLocked pattern f self) \<Longrightarrow> 0 < length (lookup (listeners self) pattern)"
proof -
  let ?L = "lookup (listeners self) pattern"
  show "alone pattern (fst (removeLocked pattern f self))"
  proof (cases "index_of f ?L")
    case None
    then have "listeners (fst (removeLocked pattern f self)) = listeners self"
      by (rule removeLocked_absent)
    with assms show ?thesis by (simp add: alone_def)
  next
    case (Some k)
    have n: "\<forall>v\<in>set (take k ?L @ drop (Suc k) ?L). \<not> once v"
      using assms by (auto simp: alone_def dest: in_set_takeD in_set_dropD)
    have l: "lookup (listeners (fst (removeLocked pattern f self))) pattern =
        take k ?L @ drop (Suc k) ?L"
      by (simp add: removeLocked_listeners Some)
    show ?thesis
      unfolding alone_def removeLocked_keys l
      using assms n by (simp add: alone_def)
  qed
  show "length (lookup (listeners (fst (removeLocked pattern f self))) pattern) =
      length ?L - (if snd (removeLocked pattern f self) then 1 else 0)"
  proof (cases "index_of f ?L")
    case None
    then show ?thesis by (simp add: removeLocked_found removeLocked_listeners)
  next
    case (Some k)
    from index_of_Some [OF Some] have "k < length ?L" by simp
    with Some show ?thesis by (simp add: removeLocked_found removeLocked_listeners)
  qed
  show "snd (removeLocked pattern f self) \<Longrightarrow> 0 < length ?L"
    by (cases ?L) (simp_all add: removeLocked_found)
qed

lemma RemoveListener_eq:
  "RemoveListener event cb self =
     (if snd (removeLocked event cb self)
      then EmitSync ''removeListener'' [VSlice [VString event, VFunc cb]]
        (fst (removeLocked event cb self))
      else Returned (fst (removeLocked event cb self)))"
  by (simp add: RemoveListener_def removeListenerInternal_def split: prod.splits)

lemma alone_RemoveListener:
  assumes "alone pattern self"
  shows "alone pattern (after (RemoveListener pattern f self))"
    and "lookup (listeners (after (RemoveListener pattern f self))) pattern =
      lookup (listeners (fst (removeLocked pattern f self))) pattern"
  using removeLocked_alone(1) [OF assms, of f]
  by (simp_all add: RemoveListener_eq alone_EmitSync alone_EmitSync_lookup)

lemma alone_count:
  "alone pattern self \<Longrightarrow>
     fst (ListenersCount pattern self) = length (lookup (listeners self) pattern)"
  by (simp add: ListenersCount_def alone_snapshot split: prod.splits)
    (metis alone_snapshot fst_conv)

lemma run_count:
  "alone pattern self \<Longrightarrow>
     alone pattern (run pattern cs self) \<and>
     length (lookup (listeners (run pattern cs self)) pattern) + removals pattern cs self =
       length (lookup (listeners self) pattern) + adds cs"
proof (induction cs arbitrary: self)
  case Nil
  then show ?case by simp
next
  case (Cons c cs)
  show ?case
  proof (cases c)
    case (CallOn f)
    from Cons.IH [OF alone_On(1) [OF Cons.prems, of f]] alone_On(2) [OF Cons.prems, of f] CallOn
    show ?thesis by simp
  next
    case (CallRemoveListener f)
    from Cons.IH [OF alone_RemoveListener(1) [OF Cons.prems, of f]]
      alone_RemoveListener(2) [OF Cons.prems, of f]
      removeLocked_alone(2,3) [OF Cons.prems, of f] CallRemoveListener
    show ?thesis by (auto split: if_splits)
  qed
qed

text \<open>
  Claim C1. Start from an emitter with no key that covers the pattern (a fresh emitter is
  one) and make any sequence of \<^verbatim>\<open>On\<close> and \<^verbatim>\<open>RemoveListener\<close> calls on that pattern:
  \<^verbatim>\<open>ListenersCount\<close> of the pattern is the number of \<^verbatim>\<open>On\<close> calls minus the number of
  successful removals; one more \<^verbatim>\<open>RemoveListener\<close> lowers the count by exactly one when
  it is successful (the count was positive then) and leaves it otherwise.
\<close>

theorem count_is_adds_minus_removals:
  assumes "distinct (map fst (listeners self))"
    and "\<forall>k\<in>set (map fst (listeners self)). \<not> shouldAdd k pattern"
  shows "int (fst (ListenersCount pattern (run pattern cs self))) =
      int (adds cs) - int (removals pattern cs self) \<and>
    fst (ListenersCount pattern (after (RemoveListener pattern f (run pattern cs self)))) =
      fst (ListenersCount pattern (run pattern cs self)) -
        (if snd (removeLocked pattern f (run pattern cs self)) then 1 else 0) \<and>
    (snd (removeLocked pattern f (run pattern cs self)) \<longrightarrow>
      0 < fst (ListenersCount pattern (run pattern cs self)))"
proof -
  from assms(2) have "pattern \<notin> fst ` set (listeners self)" by auto
  then have e: "lookup (listeners self) pattern = []" by (rule lookup_absent)
  with assms have a: "alone pattern self" by (simp add: alone_def)
  note r = run_count [OF a, of cs]
  from r e have 1: "int (fst (ListenersCount pattern (run pattern cs self))) =
      int (adds cs) - int (removals pattern cs self)"
    by (simp add: alone_count)
  from r have b: "alone pattern (run pattern cs self)" by simp
  from alone_RemoveListener [OF b, of f] removeLocked_alone(2) [OF b, of f] b
  have 2: "fst (ListenersCount pattern (after (RemoveListener pattern f (run pattern cs self)))) =
      fst (ListenersCount pattern (run pattern cs self)) -
        (if snd (removeLocked pattern f (run pattern cs self)) then 1 else 0)"
    by (simp add: alone_count)
  from removeLocked_alone(3) [OF b, of f] b
  have 3: "snd (removeLocked pattern f (run pattern cs self)) \<longrightarrow>
      0 < fst (ListenersCount pattern (run pattern cs self))"
    by (simp add: alone_count)
  from 1 2 3 show ?thesis by blast
qed

lemmas model_defs = On_def Once_def EmitSync_def EmitAsync_def Listeners_def ListenersCount_def
  removeLocked_def removeListenerInternal_def RemoveListener_def RemoveAllListeners_def
  log_def lookup_def shouldAdd_def Construct_def Destruct_def panics_def Let_def

theorem count_is_adds_minus_removals_witness:
  "int (fst (ListenersCount ''testevent''
      (run ''testevent'' [CallOn fn1, CallOn fn2, CallRemoveListener fn1, CallRemoveListener fn1]
         Construct))) =
    int (adds [CallOn fn1, CallOn fn2, CallRemoveListener fn1, CallRemoveListener fn1]) -
    int (removals ''testevent''
      [CallOn fn1, CallOn fn2, CallRemoveListener fn1, CallRemoveListener fn1] Construct) \<and>
   removals ''testevent''
      [CallOn fn1, CallOn fn2, CallRemoveListener fn1, CallRemoveListener fn1] Construct = 1 \<and>
   snd (removeLocked ''testevent'' fn2
      (run ''testevent'' [CallOn fn1, CallOn fn2, CallRemoveListener fn1, CallRemoveListener fn1]
         Construct))"
  using count_is_adds_minus_removals [of Construct "''testevent''"
      "[CallOn fn1, CallOn fn2, CallRemoveListener fn1, CallRemoveListener fn1]" fn2]
  by (simp add: model_defs emp_simps fn1_def fn2_def)

section \<open>Which patterns cover an event name\<close>

lemma emp_star_free:
  "CHR ''*'' \<notin> set pattern \<Longrightarrow> eventMatchPattern event pattern = (pattern = event)"
proof (induction pattern arbitrary: event)
  case Nil
  show ?case by (simp add: emp_Nil eq_commute)
next
  case (Cons p pat)
  from Cons.prems have p: "p \<noteq> CHR ''*''" and s: "CHR ''*'' \<notin> set pat" by auto
  show ?case
  proof (cases event)
    case Nil
    with p show ?thesis by (simp add: emp_lit_Nil)
  next
    case (Cons c name)
    have "eventMatchPattern name pat = (pat = name)" using s by (rule Cons.IH)
    with p Cons show ?thesis by (simp add: emp_lit_Cons eq_commute)
  qed
qed

lemma shouldAdd_star_free:
  "CHR ''*'' \<notin> set pattern \<Longrightarrow> shouldAdd pattern event = (pattern = event)"
  by (auto simp: shouldAdd_def)

lemma snapshot_includes:
  "(pattern, lis) \<in> set (listeners self) \<Longrightarrow> shouldAdd pattern event \<Longrightarrow>
     set lis \<subseteq> set (fst (Listeners event self))"
  by (force simp: Listeners_fst)

lemma glob_refl: "glob event event"
proof (induction event)
  case Nil
  show ?case by (rule glob_end)
next
  case (Cons c event)
  show ?case
  proof (cases "c = CHR ''*''")
    case True
    from glob_star [OF Cons, of "[c]"] True show ?thesis by simp
  next
    case False
    then show ?thesis using Cons by (rule glob_lit)
  qed
qed

lemma shouldAdd_cases:
  "shouldAdd k event =
     (k = ''**'' \<or> (if CHR ''*'' \<in> set k then eventMatchPattern event k else k = event))"
  using glob_refl [of event] by (auto simp: shouldAdd_def emp_glob)

lemma Listeners_single:
  "fst (Listeners event \<lparr>listeners = [(k, lis)], effects = es\<rparr>) =
     (if shouldAdd k event then lis else [])"
  by (simp add: Listeners_def)

text \<open>
  Claim C4. \<^verbatim>\<open>Listeners(eventName)\<close> returns the listeners of exactly those keys that are
  \<^verbatim>\<open>**\<close>, or hold a \<^verbatim>\<open>*\<close> and are accepted by the matcher, or hold no \<^verbatim>\<open>*\<close> and are the
  event name itself, and of no other key. So the listeners registered under \<^verbatim>\<open>**\<close> are in
  \<^verbatim>\<open>Listeners(eventName)\<close> for every event name; the listeners under a pattern without
  \<^verbatim>\<open>*\<close> are returned when the pattern is the event name and left out otherwise (for
  \<^verbatim>\<open>Listeners\<close>, for its test of a key and for the matcher alone); and the listeners under
  \<^verbatim>\<open>user.*\<close> are returned for \<^verbatim>\<open>user.created\<close> and \<^verbatim>\<open>user.\<close> and left out for
  \<^verbatim>\<open>admin.created\<close>.
\<close>

theorem match_all_and_exact_patterns:
  "fst (Listeners event self) =
     concat (map snd (filter
       (\<lambda>kv. fst kv = ''**'' \<or>
          (if CHR ''*'' \<in> set (fst kv) then eventMatchPattern event (fst kv)
           else fst kv = event))
       (listeners self))) \<and>
   shouldAdd ''**'' event \<and>
   ((''**'', lis) \<in> set (listeners self) \<longrightarrow> set lis \<subseteq> set (fst (Listeners event self))) \<and>
   fst (Listeners event \<lparr>listeners = [(''**'', lis)], effects = es\<rparr>) = lis \<and>
   (CHR ''*'' \<notin> set pattern \<longrightarrow> shouldAdd pattern event = (pattern = event)) \<and>
   (CHR ''*'' \<notin> set pattern \<longrightarrow> eventMatchPattern event pattern = (pattern = event)) \<and>
   (CHR ''*'' \<notin> set pattern \<longrightarrow>
      fst (Listeners event \<lparr>listeners = [(pattern, lis)], effects = es\<rparr>) =
        (if pattern = event then lis else [])) \<and>
   ((\<forall>k\<in>set (map fst (listeners self)). CHR ''*'' \<notin> set k) \<longrightarrow>
      fst (Listeners event self) =
        concat (map snd (filter (\<lambda>kv. fst kv = event) (listeners self)))) \<and>
   shouldAdd ''user.*'' ''user.created'' \<and> shouldAdd ''user.*'' ''user.'' \<and>
   \<not> shouldAdd ''user.*'' ''admin.created'' \<and>
   fst (Listeners ''user.created'' \<lparr>listeners = [(''user.*'', lis)], effects = es\<rparr>) = lis \<and>
   fst (Listeners ''user.'' \<lparr>listeners = [(''user.*'', lis)], effects = es\<rparr>) = lis \<and>
   fst (Listeners ''admin.created'' \<lparr>listeners = [(''user.*'', lis)], effects = es\<rparr>) = []"
proof -
  have a: "shouldAdd ''**'' event" by (simp add: shouldAdd_def)
  have u: "shouldAdd ''user.*'' ''user.created''" "shouldAdd ''user.*'' ''user.''"
    "\<not> shouldAdd ''user.*'' ''admin.created''"
    by (simp_all add: shouldAdd_def emp_simps)
  have 1: "fst (Listeners event self) =
     concat (map snd (filter
       (\<lambda>kv. fst kv = ''**'' \<or>
          (if CHR ''*'' \<in> set (fst kv) then eventMatchPattern event (fst kv)
           else fst kv = event))
       (listeners self)))"
    unfolding Listeners_fst by (simp only: shouldAdd_cases)
  have 2: "(\<forall>k\<in>set (map fst (listeners self)). CHR ''*'' \<notin> set k) \<longrightarrow>
      fst (Listeners event self) =
        concat (map snd (filter (\<lambda>kv. fst kv = event) (listeners self)))"
  proof
    assume s: "\<forall>k\<in>set (map fst (listeners self)). CHR ''*'' \<notin> set k"
    have "filter (\<lambda>kv. shouldAdd (fst kv) event) (listeners self) =
        filter (\<lambda>kv. fst kv = event) (listeners self)"
      using s by (intro filter_cong refl) (simp add: shouldAdd_star_free)
    then show "fst (Listeners event self) =
        concat (map snd (filter (\<lambda>kv. fst kv = event) (listeners self)))"
      by (simp add: Listeners_fst)
  qed
  from a u 1 2 snapshot_includes [OF _ a, of lis self] show ?thesis
    by (simp add: shouldAdd_star_free emp_star_free Listeners_single)
qed

theorem match_all_and_exact_patterns_witness:
  "fst (Listeners ''anything''
       \<lparr>listeners = [(''a'', [\<lparr>callback = fn2, once = False\<rparr>]),
                     (''**'', [\<lparr>callback = fn1, once = False\<rparr>]),
                     (''user.*'', [\<lparr>callback = fn2, once = True\<rparr>])], effects = []\<rparr>) =
     [\<lparr>callback = fn1, once = False\<rparr>] \<and>
   fst (Listeners ''user.deleted''
       \<lparr>listeners = [(''user.created'', [\<lparr>callback = fn1, once = False\<rparr>]),
                     (''user.deleted'', [\<lparr>callback = fn2, once = False\<rparr>])], effects = []\<rparr>) =
     [\<lparr>callback = fn2, once = False\<rparr>] \<and>
   fst (Listeners ''user.deleted''
       \<lparr>listeners = [(''user.created'', [\<lparr>callback = fn1, once = False\<rparr>])], effects = []\<rparr>) = [] \<and>
   \<not> shouldAdd ''user.created'' ''user.deleted'' \<and>
   \<not> eventMatchPattern ''user.deleted'' ''user.created''"
  using match_all_and_exact_patterns [of "''anything''"
      "\<lparr>listeners = [(''a'', [\<lparr>callback = fn2, once = False\<rparr>]),
                     (''**'', [\<lparr>callback = fn1, once = False\<rparr>]),
                     (''user.*'', [\<lparr>callback = fn2, once = True\<rparr>])], effects = []\<rparr>"
      "[\<lparr>callback = fn1, once = False\<rparr>]" "[]" "''a''"]
    match_all_and_exact_patterns [of "''user.deleted''"
      "\<lparr>listeners = [(''user.created'', [\<lparr>callback = fn1, once = False\<rparr>]),
                     (''user.deleted'', [\<lparr>callback = fn2, once = False\<rparr>])], effects = []\<rparr>"
      "[\<lparr>callback = fn1, once = False\<rparr>]" "[]" "''user.created''"]
  by (simp add: emp_simps)

section \<open>Clearing the registry\<close>

lemma delete_filter: "AList.delete k al = filter (\<lambda>kv. fst kv \<noteq> k) al"
  by (induction al) auto

text \<open>
  Claim C8. \<^verbatim>\<open>RemoveAllListeners(nil)\<close> empties the registry (and does nothing else but take
  and release the lock). \<^verbatim>\<open>RemoveAllListeners(pattern)\<close> returns normally, removes the key
  equal to the pattern and keeps every other key with its listeners, in their order: no
  other key is touched, whether or not the pattern covers it as a wildcard. When the key
  is absent the registry is unchanged.
\<close>

theorem RemoveAllListeners_frame:
  "RemoveAllListeners None self = Returned (log [Lock, Unlock] (self\<lparr>listeners := []\<rparr>)) \<and>
   returns (RemoveAllListeners (Some (VString pattern)) self) \<and>
   effects (after (RemoveAllListeners (Some (VString pattern)) self)) =
     effects self @ [Lock, Unlock] \<and>
   listeners (after (RemoveAllListeners (Some (VString pattern)) self)) =
     filter (\<lambda>kv. fst kv \<noteq> pattern) (listeners self) \<and>
   map_of (listeners (after (RemoveAllListeners (Some (VString pattern)) self))) pattern = None \<and>
   (\<forall>k. k \<noteq> pattern \<longrightarrow>
      map_of (listeners (after (RemoveAllListeners (Some (VString pattern)) self))) k =
      map_of (listeners self) k) \<and>
   (pattern \<notin> fst ` set (listeners self) \<longrightarrow>
      listeners (after (RemoveAllListeners (Some (VString pattern)) self)) = listeners self)"
proof -
  have n: "map_of (listeners self) pattern = None \<Longrightarrow>
      filter (\<lambda>kv. fst kv \<noteq> pattern) (listeners self) = listeners self"
    by (auto simp: map_of_eq_None_iff filter_id_conv)
  have m: "map_of (filter (\<lambda>kv. fst kv \<noteq> pattern) (listeners self)) = (map_of (listeners self))(pattern := None)"
    using AList.delete_conv' [of pattern "listeners self"] by (simp add: delete_filter)
  have l: "listeners (after (RemoveAllListeners (Some (VString pattern)) self)) =
     filter (\<lambda>kv. fst kv \<noteq> pattern) (listeners self)"
    using n by (simp add: RemoveAllListeners_def Let_def delete_filter)
  show ?thesis
    unfolding l m
    by (auto simp: RemoveAllListeners_def Let_def log_def filter_id_conv)
qed

theorem RemoveAllListeners_frame_witness:
  "listeners (after (RemoveAllListeners (Some (VString ''user.*''))
      \<lparr>listeners = [(''user.created'', [\<lparr>callback = fn1, once = False\<rparr>]),
                    (''user.*'', [\<lparr>callback = fn2, once = False\<rparr>])], effects = []\<rparr>)) =
     [(''user.created'', [\<lparr>callback = fn1, once = False\<rparr>])] \<and>
   listeners (after (RemoveAllListeners (Some (VString ''absent''))
      \<lparr>listeners = [(''user.created'', [\<lparr>callback = fn1, once = False\<rparr>])], effects = []\<rparr>)) =
     [(''user.created'', [\<lparr>callback = fn1, once = False\<rparr>])] \<and>
   map_of (listeners (after (RemoveAllListeners (Some (VString ''user.*''))
      \<lparr>listeners = [(''user.created'', [\<lparr>callback = fn1, once = False\<rparr>]),
                    (''user.*'', [\<lparr>callback = fn2, once = False\<rparr>])], effects = []\<rparr>))) ''user.created'' =
     Some [\<lparr>callback = fn1, once = False\<rparr>]"
  using RemoveAllListeners_frame [of
      "\<lparr>listeners = [(''user.created'', [\<lparr>callback = fn1, once = False\<rparr>]),
                    (''user.*'', [\<lparr>callback = fn2, once = False\<rparr>])], effects = []\<rparr>" "''user.*''"]
    RemoveAllListeners_frame [of
      "\<lparr>listeners = [(''user.created'', [\<lparr>callback = fn1, once = False\<rparr>])], effects = []\<rparr>"
      "''absent''"]
  by simp

section \<open>One-time listeners and the release of the emitter\<close>

text \<open>
  Claim C2, at the input where the code departs from it. A callback registered once with
  \<^verbatim>\<open>Once("user.*", fn1)\<close> on a fresh emitter, then \<^verbatim>\<open>EmitSync("user.created")\<close> twice: the
  dispatch removes a one-time listener under the name of the event emitted, not under the
  pattern it was registered with, so nothing is removed; \<open>fn1\<close> is called by both
  emissions and is still in the registry and in \<^verbatim>\<open>Listeners("user.created")\<close>.
\<close>

theorem once_on_wildcard_fires_again:
  "calls (effects (after (EmitSync ''user.created'' []
      (after (EmitSync ''user.created'' [] (after (Once ''user.*'' fn1 Construct))))))) =
     [(fn1, []), (fn1, [])] \<and>
   listeners (after (EmitSync ''user.created'' []
      (after (EmitSync ''user.created'' [] (after (Once ''user.*'' fn1 Construct)))))) =
     [(''user.*'', [\<lparr>callback = fn1, once = True\<rparr>])] \<and>
   fst (Listeners ''user.created'' (after (EmitSync ''user.created'' []
      (after (EmitSync ''user.created'' [] (after (Once ''user.*'' fn1 Construct))))))) =
     [\<lparr>callback = fn1, once = True\<rparr>]"
  by (simp add: model_defs emp_simps fn1_def)

text \<open>
  Claim C10, at the input where the code departs from it. \<^verbatim>\<open>Destruct\<close> leaves every
  emitter as it was: after \<^verbatim>\<open>On("testevent", fn1)\<close> on a fresh emitter and \<^verbatim>\<open>Destruct\<close>, the
  registry still holds the listener.
\<close>

theorem Destruct_keeps_the_registry:
  "Destruct self = self \<and>
   fst (ListenersCount ''testevent'' (Destruct (after (On ''testevent'' fn1 Construct)))) = 1"
  by (simp add: model_defs emp_simps fn1_def)

section \<open>The order of dispatch\<close>

lemma lookup_set:
  "distinct (map fst reg) \<Longrightarrow>
     (\<forall>kv\<in>set reg. fst kv \<noteq> e \<longrightarrow> snd kv = []) = (\<forall>k. k \<noteq> e \<longrightarrow> lookup reg k = [])"
proof
  assume d: "distinct (map fst reg)" and a: "\<forall>kv\<in>set reg. fst kv \<noteq> e \<longrightarrow> snd kv = []"
  show "\<forall>k. k \<noteq> e \<longrightarrow> lookup reg k = []"
  proof (intro allI impI)
    fix k assume k: "k \<noteq> e"
    show "lookup reg k = []"
    proof (cases "map_of reg k")
      case None
      then show ?thesis by (simp add: lookup_def)
    next
      case (Some lis)
      then have "(k, lis) \<in> set reg" by (rule map_of_SomeD)
      with a k have "lis = []" by auto
      with Some show ?thesis by (simp add: lookup_def)
    qed
  qed
next
  assume d: "distinct (map fst reg)" and a: "\<forall>k. k \<noteq> e \<longrightarrow> lookup reg k = []"
  show "\<forall>kv\<in>set reg. fst kv \<noteq> e \<longrightarrow> snd kv = []"
  proof (intro ballI impI)
    fix kv assume m: "kv \<in> set reg" and k: "fst kv \<noteq> e"
    from m have "(fst kv, snd kv) \<in> set reg" by simp
    with d have "map_of reg (fst kv) = Some (snd kv)" by (rule map_of_is_SomeI)
    then have "lookup reg (fst kv) = snd kv" by (simp add: lookup_def)
    with a k show "snd kv = []" by simp
  qed
qed

lemma removeLocked_empty:
  "lookup (listeners self) k = [] \<Longrightarrow>
     lookup (listeners (fst (removeLocked event cb self))) k = []"
  by (auto simp: removeLocked_listeners split: option.splits)

lemma dispatchSync_empty:
  "lookup (listeners self) k = [] \<Longrightarrow>
     lookup (listeners (after (dispatchSync event args snap self))) k = []"
  by (induction snap arbitrary: self) (simp_all add: Let_def removeLocked_empty)

lemma index_of_append_first:
  "\<exists>v\<in>set A. fptr (callback v) = fptr cb \<Longrightarrow>
     \<exists>k. index_of cb (A @ S) = Some k \<and> k < length A \<and> fptr (callback (A ! k)) = fptr cb"
proof (induction A)
  case Nil
  then show ?case by simp
next
  case (Cons a A)
  show ?case
  proof (cases "fptr (callback a) = fptr cb")
    case True
    then show ?thesis by simp
  next
    case False
    with Cons.prems have "\<exists>v\<in>set A. fptr (callback v) = fptr cb" by auto
    from Cons.IH [OF this] obtain k where "index_of cb (A @ S) = Some k" "k < length A"
      "fptr (callback (A ! k)) = fptr cb" by blast
    with False show ?thesis by simp
  qed
qed

lemma filter_length_mono:
  "(\<And>x. P x \<Longrightarrow> Q x) \<Longrightarrow> length (filter P xs) \<le> length (filter Q xs)"
  by (induction xs) auto

lemma dispatchSync_suffix:
  assumes "lookup (listeners self) event = A @ S"
    and "\<forall>c. length (filter (\<lambda>v. once v \<and> fptr (callback v) = c) snap) \<le>
          length (filter (\<lambda>v. fptr (callback v) = c) A)"
  shows "\<exists>A'. lookup (listeners (after (dispatchSync event args snap self))) event = A' @ S"
  using assms
proof (induction snap arbitrary: self A)
  case Nil
  then show ?case by simp
next
  case (Cons v vs)
  show ?case
  proof (cases "once v")
    case False
    let ?s2 = "log [Call (callback v) args] self"
    from Cons.prems(1) have l: "lookup (listeners ?s2) event = A @ S" by simp
    from Cons.prems(2) False
    have i: "\<forall>c. length (filter (\<lambda>v. once v \<and> fptr (callback v) = c) vs) \<le>
          length (filter (\<lambda>v. fptr (callback v) = c) A)" by simp
    from Cons.IH [OF l i] Cons.prems(1) False show ?thesis by (auto simp: Let_def)
  next
    case True
    let ?s1 = "fst (removeLocked event (callback v) self)"
    let ?s2 = "log [Call (callback v) args] ?s1"
    from Cons.prems(2) [rule_format, of "fptr (callback v)"] True
    have "filter (\<lambda>w. fptr (callback w) = fptr (callback v)) A \<noteq> []" by auto
    then have "\<exists>w\<in>set A. fptr (callback w) = fptr (callback v)"
      by (simp add: filter_empty_conv)
    from index_of_append_first [OF this, of S] obtain k
      where k: "index_of (callback v) (A @ S) = Some k" "k < length A"
        "fptr (callback (A ! k)) = fptr (callback v)" by blast
    let ?A = "take k A @ drop (Suc k) A"
    from k Cons.prems(1) have l: "lookup (listeners ?s2) event = ?A @ S"
      by (simp add: removeLocked_listeners)
    have A: "A = take k A @ A ! k # drop (Suc k) A" using k(2) by (rule id_take_nth_drop)
    have i: "\<forall>c. length (filter (\<lambda>v. once v \<and> fptr (callback v) = c) vs) \<le>
          length (filter (\<lambda>v. fptr (callback v) = c) ?A)"
    proof
      fix c
      have "length (filter (\<lambda>v. fptr (callback v) = c) A) =
          length (filter (\<lambda>v. fptr (callback v) = c) ?A) +
          (if fptr (callback v) = c then 1 else 0)"
        by (subst A) (simp add: k(3))
      with Cons.prems(2) [rule_format, of c] True
      show "length (filter (\<lambda>v. once v \<and> fptr (callback v) = c) vs) \<le>
          length (filter (\<lambda>v. fptr (callback v) = c) ?A)"
        by (simp split: if_splits)
    qed
    from Cons.IH [OF l i] l True show ?thesis by (auto simp: Let_def)
  qed
qed

lemma On_suffix:
  assumes d: "distinct (map fst (listeners self))"
    and o: "\<forall>k. k \<noteq> e \<longrightarrow> lookup (listeners self) k = []"
    and l: "lookup (listeners self) e = A @ S"
    and n: "\<forall>v\<in>set S. \<not> once v"
  shows "distinct (map fst (listeners (after (On e f self))))"
    and "\<forall>k. k \<noteq> e \<longrightarrow> lookup (listeners (after (On e f self))) k = []"
    and "\<exists>A'. (e \<noteq> ''newListener'' \<longrightarrow> A' = A) \<and>
      lookup (listeners (after (On e f self))) e = A' @ S @ [\<lparr>callback = f, once = False\<rparr>]"
proof -
  let ?fe = "\<lparr>callback = f, once = False\<rparr>"
  let ?reg = "AList.update e (lookup (listeners self) e @ [?fe]) (listeners self)"
  let ?t = "log [Lock, Unlock] (self\<lparr>listeners := ?reg\<rparr>)"
  let ?a = "[VSlice [VString e, VFunc f]]"
  let ?u = "log [Emit ''newListener'' ?a, Lock, Unlock] ?t"
  let ?snap = "fst (Listeners ''newListener'' ?t)"
  have On: "On e f self = dispatchSync ''newListener'' ?a ?snap ?u"
    by (simp only: On_eq EmitSync_eq)
  have dt: "distinct (map fst (listeners ?t))" using d by (simp add: AList.distinct_update)
  have ot: "\<forall>k. k \<noteq> e \<longrightarrow> lookup (listeners ?t) k = []" using o by simp
  have lt: "lookup (listeners ?t) e = A @ S @ [?fe]" using l by simp
  show "distinct (map fst (listeners (after (On e f self))))"
    using dt by (simp add: On)
  show "\<forall>k. k \<noteq> e \<longrightarrow> lookup (listeners (after (On e f self))) k = []"
    using ot by (simp add: On dispatchSync_empty)
  show "\<exists>A'. (e \<noteq> ''newListener'' \<longrightarrow> A' = A) \<and>
      lookup (listeners (after (On e f self))) e = A' @ S @ [?fe]"
  proof (cases "e = ''newListener''")
    case False
    then have "map_of (listeners (after (On e f self))) e = map_of (listeners ?u) e"
      unfolding On by (intro dispatchSync_other) simp
    then have "lookup (listeners (after (On e f self))) e = lookup (listeners ?u) e"
      by (simp add: lookup_def)
    with lt show ?thesis by simp
  next
    case True
    from ot dt have os: "\<forall>kv\<in>set (listeners ?t).
        fst kv \<noteq> e \<and> shouldAdd (fst kv) ''newListener'' \<longrightarrow> snd kv = []"
      using lookup_set [OF dt, of e] by blast
    from snapshot_only [OF dt os] True lt have snap: "?snap = A @ S @ [?fe]"
      by (simp only: Listeners_fst shouldAdd_same if_True)
    have lu: "lookup (listeners ?u) ''newListener'' = A @ (S @ [?fe])"
      using lt True by simp
    have i: "\<forall>c. length (filter (\<lambda>v. once v \<and> fptr (callback v) = c) ?snap) \<le>
          length (filter (\<lambda>v. fptr (callback v) = c) A)"
    proof
      fix c
      from n have "filter (\<lambda>v. once v \<and> fptr (callback v) = c) S = []"
        by (auto simp: filter_empty_conv)
      then have "length (filter (\<lambda>v. once v \<and> fptr (callback v) = c) ?snap) =
          length (filter (\<lambda>v. once v \<and> fptr (callback v) = c) A)"
        unfolding snap by simp
      also have "\<dots> \<le> length (filter (\<lambda>v. fptr (callback v) = c) A)"
        by (rule filter_length_mono) simp
      finally show "length (filter (\<lambda>v. once v \<and> fptr (callback v) = c) ?snap) \<le>
          length (filter (\<lambda>v. fptr (callback v) = c) A)" .
    qed
    from dispatchSync_suffix [OF lu i, of ?a] True show ?thesis
      unfolding On by auto
  qed
qed


text \<open>
  Claim C7. Take any emitter in which no key other than \<open>e\<close> holds a listener, register \<open>f1\<close>
  and then \<open>f2\<close> on \<open>e\<close> with \<^verbatim>\<open>On\<close>, and call \<^verbatim>\<open>EmitSync(e, args)\<close>. The list under \<open>e\<close>, and
  the snapshot that \<^verbatim>\<open>EmitSync\<close> takes, is then what is left of the older listeners \<open>X\<close> (all
  of them unless \<open>e\<close> is \<^verbatim>\<open>newListener\<close>), followed by \<open>f1\<close>, followed by \<open>f2\<close>; the calls that
  \<^verbatim>\<open>EmitSync\<close> makes are the callbacks of that list in that order, each with \<open>args\<close>, up to
  the first that panics. So \<open>f1\<close> is called before \<open>f2\<close>, and when nothing before \<open>f2\<close> panics
  the calls end with \<open>f1\<close> and then \<open>f2\<close>.
\<close>

theorem registration_order_is_dispatch_order:
  assumes "distinct (map fst (listeners self))"
    and "\<forall>kv\<in>set (listeners self). fst kv \<noteq> e \<longrightarrow> snd kv = []"
  shows "\<exists>X.
    lookup (listeners (after (On e f2 (after (On e f1 self))))) e =
      X @ [\<lparr>callback = f1, once = False\<rparr>, \<lparr>callback = f2, once = False\<rparr>] \<and>
    (e \<noteq> ''newListener'' \<longrightarrow> X = lookup (listeners self) e) \<and>
    fst (Listeners e (after (On e f2 (after (On e f1 self))))) =
      X @ [\<lparr>callback = f1, once = False\<rparr>, \<lparr>callback = f2, once = False\<rparr>] \<and>
    calls (effects (after (EmitSync e args (after (On e f2 (after (On e f1 self))))))) =
      calls (effects (after (On e f2 (after (On e f1 self))))) @
      map (\<lambda>v. (callback v, args))
        (reached (X @ [\<lparr>callback = f1, once = False\<rparr>, \<lparr>callback = f2, once = False\<rparr>])) \<and>
    ((\<forall>v\<in>set X. \<not> panics (callback v)) \<and> \<not> panics f1 \<longrightarrow>
      calls (effects (after (EmitSync e args (after (On e f2 (after (On e f1 self))))))) =
        calls (effects (after (On e f2 (after (On e f1 self))))) @
        map (\<lambda>v. (callback v, args)) X @ [(f1, args), (f2, args)])"
proof -
  let ?f1 = "\<lparr>callback = f1, once = False\<rparr>" and ?f2 = "\<lparr>callback = f2, once = False\<rparr>"
  let ?s1 = "after (On e f1 self)"
  let ?s2 = "after (On e f2 ?s1)"
  from assms have o: "\<forall>k. k \<noteq> e \<longrightarrow> lookup (listeners self) k = []"
    by (simp add: lookup_set)
  have l: "lookup (listeners self) e = lookup (listeners self) e @ []" by simp
  have n0: "\<forall>v\<in>set ([] :: Listener list). \<not> once v" by simp
  note a = On_suffix [OF assms(1) o l n0, of f1]
  from a(3) obtain A1 where A1: "e \<noteq> ''newListener'' \<longrightarrow> A1 = lookup (listeners self) e"
    and l1: "lookup (listeners ?s1) e = A1 @ [?f1]" by auto
  have n: "\<forall>v\<in>set [?f1]. \<not> once v" by simp
  note b = On_suffix [OF a(1) a(2) l1 n, of f2]
  from b(3) obtain X where X: "e \<noteq> ''newListener'' \<longrightarrow> X = A1"
    and l2: "lookup (listeners ?s2) e = X @ [?f1, ?f2]" by auto
  from b(1) b(2) have os: "\<forall>kv\<in>set (listeners ?s2).
      fst kv \<noteq> e \<and> shouldAdd (fst kv) e \<longrightarrow> snd kv = []"
    using lookup_set [OF b(1), of e] by blast
  from snapshot_only [OF b(1) os] l2 have snap: "fst (Listeners e ?s2) = X @ [?f1, ?f2]"
    by (simp only: Listeners_fst shouldAdd_same if_True)
  have c: "calls (effects (after (EmitSync e args ?s2))) =
      calls (effects ?s2) @ map (\<lambda>v. (callback v, args)) (reached (X @ [?f1, ?f2]))"
    by (simp add: EmitSync_eq dispatchSync_calls snap)
  have r: "(\<forall>v\<in>set X. \<not> panics (callback v)) \<and> \<not> panics f1 \<longrightarrow>
      reached (X @ [?f1, ?f2]) = X @ [?f1, ?f2]"
    by (induction X) simp_all
  from A1 X l2 snap c r show ?thesis
    by (intro exI [of _ X]) auto
qed

theorem registration_order_is_dispatch_order_witness:
  "calls (effects (after (EmitSync ''e'' [VInt 7]
      (after (On ''e'' fn2 (after (On ''e'' fn1 Construct))))))) =
     [(fn1, [VInt 7]), (fn2, [VInt 7])] \<and>
   calls (effects (after (EmitSync ''e'' []
      (after (On ''e'' fn1 (after (On ''e'' fn2
         \<lparr>listeners = [(''other'', []), (''e'', [\<lparr>callback = fn2, once = True\<rparr>])],
          effects = []\<rparr>))))))) =
     [(fn2, []), (fn2, []), (fn1, [])]"
  using registration_order_is_dispatch_order [of Construct "''e''" fn1 fn2 "[VInt 7]"]
    registration_order_is_dispatch_order [of
      "\<lparr>listeners = [(''other'', []), (''e'', [\<lparr>callback = fn2, once = True\<rparr>])], effects = []\<rparr>"
      "''e''" fn2 fn1 "[]"]
  by (simp add: model_defs emp_simps fn1_def fn2_def)

section \<open>The meta-events\<close>








lemma dispatchAsync_emits [simp]:
  "emits (effects (dispatchAsync event args snap self)) = emits (effects self)"
  by (induction snap arbitrary: self) (simp_all add: Let_def)







section \<open>Asynchronous dispatch\<close>

lemma started_append [simp]: "started (xs @ ys) = started xs @ started ys"
  by (induction xs rule: started.induct) simp_all

lemma crashes_append: "crashes (xs @ ys) = (crashes xs \<or> crashes ys)"
  by (simp add: crashes_def)


lemma dispatchAsync_calls [simp]:
  "calls (effects (dispatchAsync event args snap self)) = calls (effects self)"
  by (induction snap arbitrary: self) (simp_all add: Let_def)






lemma dispatchAsync_keys [simp]:
  "map fst (listeners (dispatchAsync event args snap self)) = map fst (listeners self)"
  by (induction snap arbitrary: self) (simp_all add: Let_def)






end
